theory Spec2Isabelle
  imports Complex_Main "HOL-Library.AList"
begin

section \<open>The job ledger\<close>

text \<open>
  A job is the dictionary that \<open>run_cudaq\<close> builds at ingestion and \<open>dispatch_job\<close> fills in.
  The status is kept as the string the source compares against.  The ledger file is a
  sequence of lines: a line that \<open>json.loads\<close> turns into a job dictionary, a line that is
  empty after stripping, or a line on which \<open>json.loads\<close> raises \<open>JSONDecodeError\<close>.  The
  file may be absent (\<open>os.path.exists\<close>).  File and process operations of the operating
  system are taken to succeed; process identifiers are within the range of the platform.
\<close>

record job =
  command :: string
  status :: string
  pid :: "int option"
  gpu_id :: "int option"
  start_time :: "string option"
  log_file :: "string option"

datatype line = JobLine job | BlankLine | InvalidLine

fun parse_lines :: "line list \<Rightarrow> job list" where
  "parse_lines [] = []"
| "parse_lines (JobLine j # ls) = j # parse_lines ls"
| "parse_lines (BlankLine # ls) = parse_lines ls"
| "parse_lines (InvalidLine # ls) = parse_lines ls"

fun load_jobs :: "line list option \<Rightarrow> job list" where
  "load_jobs None = []"
| "load_jobs (Some ls) = parse_lines ls"

fun save_job :: "line list option \<Rightarrow> job \<Rightarrow> line list option" where
  "save_job None job_data = Some [JobLine job_data]"
| "save_job (Some ls) job_data = Some (ls @ [JobLine job_data])"

definition rewrite_jobs_file :: "job list \<Rightarrow> line list option" where
  "rewrite_jobs_file all_jobs = Some (map JobLine all_jobs)"

section \<open>Process liveness\<close>

text \<open>
  \<open>os.kill(pid, sig)\<close> is an oracle of the operating system: it returns or raises
  \<open>OSError\<close>.  \<open>is_process_running\<close> returns its answer together with the list of
  \<open>(pid, signal)\<close> pairs it has passed to \<open>os.kill\<close>.
\<close>

datatype kill_result = KillOk | OSError

type_synonym os_kill = "int \<Rightarrow> int \<Rightarrow> kill_result"

fun is_process_running :: "os_kill \<Rightarrow> int option \<Rightarrow> bool \<times> (int \<times> int) list" where
  "is_process_running kill None = (False, [])"
| "is_process_running kill (Some p) =
     (if p \<le> 0 then (False, [])
      else (case kill p 0 of
              OSError \<Rightarrow> (False, [(p, 0)])
            | KillOk \<Rightarrow> (True, [(p, 0)])))"

abbreviation alive :: "os_kill \<Rightarrow> int option \<Rightarrow> bool" where
  "alive kill p \<equiv> fst (is_process_running kill p)"

section \<open>Reconciliation at startup\<close>

definition mark_stale :: "os_kill \<Rightarrow> job \<Rightarrow> job" where
  "mark_stale kill j =
     (if status j = ''running'' then
        (if \<not> alive kill (pid j) then j\<lparr>status := ''failed''\<rparr> else j)
      else j)"

definition reconcile_startup :: "os_kill \<Rightarrow> job list \<Rightarrow> job list" where
  "reconcile_startup kill all_jobs = map (mark_stale kill) all_jobs"

definition new_job :: "string \<Rightarrow> job" where
  "new_job cmd = \<lparr>command = cmd, status = ''pending'', pid = None, gpu_id = None,
                   start_time = None, log_file = None\<rparr>"

section \<open>Reconciliation inside a cycle\<close>

text \<open>
  \<open>os.waitpid(pid, options)\<close> is the second oracle: it returns a pair of a process id and
  a status, or raises \<open>ChildProcessError\<close>.  With \<open>WNOHANG\<close> it returns the pair (0, 0)
  when the child exists and has not exited: no status is available then.  The source
  reads the second component of the pair only.  Called with None for the process id it
  raises \<open>TypeError\<close>, which the source does not catch: the loop over the jobs stops
  there and nothing is written.
\<close>

datatype wait_result = WaitReturned int int | ChildProcessError

type_synonym os_waitpid = "int \<Rightarrow> nat \<Rightarrow> wait_result"

definition WNOHANG :: nat where
  "WNOHANG = 1"

datatype error = TypeError

definition retrieve_retcode :: "os_waitpid \<Rightarrow> int \<Rightarrow> int option" where
  "retrieve_retcode waitpid p =
     (case waitpid p WNOHANG of
        WaitReturned _ st \<Rightarrow> Some st
      | ChildProcessError \<Rightarrow> None)"

definition update_job :: "os_kill \<Rightarrow> os_waitpid \<Rightarrow> job \<Rightarrow> error + (job \<times> bool)" where
  "update_job kill waitpid j =
     (if status j = ''running'' then
        (if \<not> alive kill (pid j) then
           (case pid j of
              None \<Rightarrow> Inl TypeError
            | Some p \<Rightarrow>
                (let retcode = retrieve_retcode waitpid p
                 in Inr (if retcode = Some 0 then j\<lparr>status := ''completed''\<rparr>
                         else j\<lparr>status := ''failed''\<rparr>, True)))
         else Inr (j, False))
      else Inr (j, False))"

fun update_running :: "os_kill \<Rightarrow> os_waitpid \<Rightarrow> job list \<Rightarrow> bool \<Rightarrow> error + (job list \<times> bool)" where
  "update_running kill waitpid [] changed = Inr ([], changed)"
| "update_running kill waitpid (j # js) changed =
     (case update_job kill waitpid j of
        Inl e \<Rightarrow> Inl e
      | Inr (j', c) \<Rightarrow>
          (case update_running kill waitpid js (changed \<or> c) of
             Inl e \<Rightarrow> Inl e
           | Inr (js', changed') \<Rightarrow> Inr (j' # js', changed')))"

section \<open>A sample ledger and operating system\<close>

definition ex_jobs :: "job list" where
  "ex_jobs = [(new_job ''a'')\<lparr>status := ''running'', pid := Some 11\<rparr>,
              (new_job ''b'')\<lparr>status := ''running'', pid := Some 12\<rparr>,
              (new_job ''c'')\<lparr>status := ''running'', pid := Some 13\<rparr>,
              (new_job ''d'')\<lparr>status := ''running'', pid := Some 14\<rparr>,
              new_job ''e'']"

definition ex_kill :: os_kill where
  "ex_kill p s = (if p = 14 then KillOk else OSError)"

definition ex_waitpid :: os_waitpid where
  "ex_waitpid p opts = (if p = 11 then WaitReturned 11 0
                        else if p = 12 then WaitReturned 12 256 else ChildProcessError)"

section \<open>Ingestion of the command source\<close>

text \<open>
  The command source is the list of lines that iterating over the file yields, or None
  when the file does not exist.  A character is a code point below 256; \<open>isspace\<close> holds
  for the code points that \<open>str.strip\<close> removes in that range.
\<close>

record ledger =
  all_jobs :: "job list"
  jobs_file :: "line list option"

definition isspace :: "char \<Rightarrow> bool" where
  "isspace c = (of_char c \<in> set [9, 10, 11, 12, 13, 28, 29, 30, 31, 32, 133, 160 :: nat])"

definition strip :: "string \<Rightarrow> string" where
  "strip s = rev (dropWhile isspace (rev (dropWhile isspace s)))"

definition new_commands :: "string list \<Rightarrow> string list" where
  "new_commands f = [strip line. line \<leftarrow> f, strip line \<noteq> []]"

fun ingest_commands :: "string list \<Rightarrow> ledger \<Rightarrow> ledger" where
  "ingest_commands [] L = L"
| "ingest_commands (cmd # cmds) L =
     (if \<not> list_ex (\<lambda>j. command j = cmd) (all_jobs L)
      then ingest_commands cmds
             \<lparr>all_jobs = all_jobs L @ [new_job cmd],
              jobs_file = save_job (jobs_file L) (new_job cmd)\<rparr>
      else ingest_commands cmds L)"

fun load_new_commands :: "string list option \<Rightarrow> ledger \<Rightarrow> ledger" where
  "load_new_commands None L = L"
| "load_new_commands (Some f) L = ingest_commands (new_commands f) L"

definition startup :: "os_kill \<Rightarrow> string list option \<Rightarrow> line list option \<Rightarrow> ledger" where
  "startup kill commands_file stored =
     (let js = reconcile_startup kill (load_jobs stored)
      in load_new_commands commands_file
           \<lparr>all_jobs = js, jobs_file = rewrite_jobs_file js\<rparr>)"

definition file_lines :: "line list option \<Rightarrow> line list" where
  "file_lines f = (case f of None \<Rightarrow> [] | Some ls \<Rightarrow> ls)"

definition non_terminal :: "job \<Rightarrow> bool" where
  "non_terminal j = (status j = ''pending'' \<or> status j = ''running'')"

definition ex_ledger :: ledger where
  "ex_ledger = \<lparr>all_jobs = [(new_job ''train a'')\<lparr>status := ''completed''\<rparr>],
                jobs_file = Some [JobLine ((new_job ''train a'')\<lparr>status := ''completed''\<rparr>)]\<rparr>"

definition ex_source :: "string list" where
  "ex_source = [''train a'' @ [CHR 0x0A], ''  train b '' @ [CHR 0x0A], ''   '' @ [CHR 0x0A],
                [CHR 0x09] @ ''train b'']"

section \<open>Device monitor\<close>

text \<open>
  The device library is an oracle that answers a query for a device index with the free
  memory in bytes, or raises \<open>NVMLError\<close> (None).  A snapshot is the dictionary that
  \<open>get_all_gpus_free_mem_mb\<close> builds, kept as the list of its items in insertion order,
  which is the order in which Python iterates over it.  A reading in megabytes is the
  quotient of the byte count by \<open>1024 * 1024\<close>, an exact rational; the rounding of
  floating-point numbers is not modelled.
\<close>

type_synonym snapshot = "(int \<times> rat) list"

definition get_gpu_free_mem_mb :: "(int \<Rightarrow> nat option) \<Rightarrow> int \<Rightarrow> rat option" where
  "get_gpu_free_mem_mb nvml gid =
     (case nvml gid of None \<Rightarrow> None | Some free \<Rightarrow> Some (of_nat free / 1024 / 1024))"

fun query_gpus :: "(int \<Rightarrow> nat option) \<Rightarrow> int list \<Rightarrow> snapshot \<Rightarrow> snapshot" where
  "query_gpus nvml [] mem_dict = mem_dict"
| "query_gpus nvml (gid # gids) mem_dict =
     (case get_gpu_free_mem_mb nvml gid of
        Some m \<Rightarrow> query_gpus nvml gids (AList.update gid m mem_dict)
      | None \<Rightarrow> query_gpus nvml gids mem_dict)"

definition get_all_gpus_free_mem_mb ::
    "nat \<Rightarrow> (int \<Rightarrow> nat option) \<Rightarrow> int list option \<Rightarrow> snapshot" where
  "get_all_gpus_free_mem_mb device_count nvml gpu_ids =
     query_gpus nvml
       (case gpu_ids of None \<Rightarrow> map int [0..<device_count] | Some ids \<Rightarrow> ids) []"

section \<open>Dispatch\<close>

text \<open>
  The process launcher is an oracle: for the number of processes launched so far, the
  command and the device it answers with the process id, the log file and the start time
  that \<open>dispatch_job\<close> stores in the job.
\<close>

record launched_process =
  proc_pid :: int
  proc_log_file :: string
  proc_start_time :: string

type_synonym launcher = "nat \<Rightarrow> string \<Rightarrow> int \<Rightarrow> launched_process"

definition dispatch_job :: "launcher \<Rightarrow> nat \<Rightarrow> job \<Rightarrow> int \<Rightarrow> job" where
  "dispatch_job launch n j g =
     (let process = launch n (command j) g
      in j\<lparr>gpu_id := Some g,
            log_file := Some (proc_log_file process),
            start_time := Some (proc_start_time process),
            pid := Some (proc_pid process),
            status := ''running''\<rparr>)"

record cycle_state = ledger +
  free_mem_dict :: snapshot
  launched :: nat

definition pending_jobs :: "job list \<Rightarrow> nat list" where
  "pending_jobs js = filter (\<lambda>i. status (js ! i) = ''pending'') [0..<length js]"

definition suitable_gpus :: "int \<Rightarrow> snapshot \<Rightarrow> snapshot" where
  "suitable_gpus thr d = filter (\<lambda>(gid, mem). of_int thr \<le> mem) d"

definition sort_by_mem_reverse :: "snapshot \<Rightarrow> snapshot" where
  "sort_by_mem_reverse xs = sort_key (\<lambda>x. - snd x) xs"

definition select_gpu :: "int \<Rightarrow> snapshot \<Rightarrow> (int \<times> rat) option" where
  "select_gpu thr d =
     (case sort_by_mem_reverse (suitable_gpus thr d) of
        [] \<Rightarrow> None
      | best # _ \<Rightarrow> Some best)"

definition index_of :: "'a list \<Rightarrow> 'a \<Rightarrow> nat" where
  "index_of xs x = length (takeWhile (\<lambda>y. y \<noteq> x) xs)"

definition subtract_mem :: "snapshot \<Rightarrow> int \<Rightarrow> int \<Rightarrow> snapshot" where
  "subtract_mem d g thr = map (\<lambda>(gid, mem). if gid = g then (gid, mem - of_int thr) else (gid, mem)) d"

definition assign_job :: "launcher \<Rightarrow> int \<Rightarrow> nat \<Rightarrow> cycle_state \<Rightarrow> cycle_state option" where
  "assign_job launch thr i s =
     (case select_gpu thr (free_mem_dict s) of
        None \<Rightarrow> None
      | Some (best_gpu, best_gpu_mem) \<Rightarrow>
          (let updated_job = dispatch_job launch (launched s) (all_jobs s ! i) best_gpu;
               js = (all_jobs s)[i := updated_job];
               idx = index_of js updated_job;
               js' = js[idx := updated_job]
           in Some \<lparr>all_jobs = js',
                    jobs_file = rewrite_jobs_file js',
                    free_mem_dict = subtract_mem (free_mem_dict s) best_gpu thr,
                    launched = Suc (launched s)\<rparr>))"

fun assign_jobs :: "launcher \<Rightarrow> int \<Rightarrow> nat list \<Rightarrow> cycle_state \<Rightarrow> cycle_state" where
  "assign_jobs launch thr [] s = s"
| "assign_jobs launch thr (i # pending) s =
     (case assign_job launch thr i s of
        None \<Rightarrow> s
      | Some s' \<Rightarrow> assign_jobs launch thr pending s')"

record config =
  gpu_ids :: "int list option"
  min_free_mem_mb :: int

definition run_cycle ::
    "os_kill \<Rightarrow> os_waitpid \<Rightarrow> nat \<Rightarrow> (int \<Rightarrow> nat option) \<Rightarrow> launcher \<Rightarrow> config \<Rightarrow>
     nat \<Rightarrow> line list option \<Rightarrow> error + cycle_state" where
  "run_cycle kill waitpid device_count nvml launch cfg n stored =
     (case update_running kill waitpid (load_jobs stored) False of
        Inl e \<Rightarrow> Inl e
      | Inr (js, changed) \<Rightarrow>
          (let f = (if changed then rewrite_jobs_file js else stored);
               pending = pending_jobs js
           in if pending = []
              then Inr \<lparr>all_jobs = js, jobs_file = f, free_mem_dict = [], launched = n\<rparr>
              else (let d = get_all_gpus_free_mem_mb device_count nvml (gpu_ids cfg)
                    in if d = []
                       then Inr \<lparr>all_jobs = js, jobs_file = f, free_mem_dict = [], launched = n\<rparr>
                       else Inr (assign_jobs launch (min_free_mem_mb cfg) pending
                                  \<lparr>all_jobs = js, jobs_file = f, free_mem_dict = d,
                                   launched = n\<rparr>))))"

definition ex_launch :: launcher where
  "ex_launch n cmd g = \<lparr>proc_pid = 1000 + int n, proc_log_file = ''job.log'',
                        proc_start_time = ''t''\<rparr>"

definition ex_state :: "job list \<Rightarrow> snapshot \<Rightarrow> cycle_state" where
  "ex_state js d = \<lparr>all_jobs = js, jobs_file = rewrite_jobs_file js, free_mem_dict = d,
                    launched = 0\<rparr>"



definition ex_nvml :: "int \<Rightarrow> nat option" where
  "ex_nvml gid = (if gid = 0 then Some (8000 * 1048576)
                  else if gid = 1 then Some (10000 * 1048576) else None)"

definition ex_config :: config where
  "ex_config = \<lparr>gpu_ids = None, min_free_mem_mb = 6000\<rparr>"


abbreviation persisted :: "'a ledger_scheme \<Rightarrow> bool" where
  "persisted L \<equiv> jobs_file L = Some (map JobLine (all_jobs L))"

abbreviation running_have_pid :: "job list \<Rightarrow> bool" where
  "running_have_pid js \<equiv> \<forall>j \<in> set js. status j = ''running'' \<longrightarrow> pid j \<noteq> None"

section \<open>A live child that may not be signalled\<close>

text \<open>
  The child with process id 11 runs under another user: \<open>os.kill(11, 0)\<close> raises
  \<open>PermissionError\<close>, a subclass of \<open>OSError\<close>, and \<open>os.waitpid(11, WNOHANG)\<close> returns
  (0, 0) because the child has not exited.  The second oracle is the one of a process id
  that is not a child: \<open>ChildProcessError\<close>.
\<close>

definition eperm_kill :: os_kill where
  "eperm_kill p s = OSError"

definition nohang_waitpid :: os_waitpid where
  "nohang_waitpid p opts = WaitReturned 0 0"

definition no_child_waitpid :: os_waitpid where
  "no_child_waitpid p opts = ChildProcessError"

definition live_job :: job where
  "live_job = (new_job ''a'')\<lparr>status := ''running'', pid := Some 11\<rparr>"

section \<open>Properties\<close>

lemma alive_kill_ok: "alive kill p \<longleftrightarrow> (\<exists>q. p = Some q \<and> 0 < q \<and> kill q 0 = KillOk)"
  by (cases p) (auto split: kill_result.splits)

text \<open>
  C9: the liveness check answers False for a handle that is None or not positive, and
  passes nothing to \<open>os.kill\<close> in that case; a freshly ingested pending record is
  therefore never reported alive, and every probe that is sent is signal 0 to a positive
  process id.
\<close>

theorem C9_no_probe_for_none_or_nonpositive:
  "(pid' = None \<or> (\<exists>p. pid' = Some p \<and> p \<le> 0) \<longrightarrow> is_process_running kill pid' = (False, []))
   \<and> is_process_running kill (pid (new_job cmd)) = (False, [])
   \<and> (\<forall>(p, sig) \<in> set (snd (is_process_running kill pid')). 0 < p \<and> sig = 0)"
  by (cases pid') (auto simp: new_job_def split: kill_result.splits)

theorem C9_witness:
  "is_process_running (\<lambda>p s. KillOk) (Some 0) = (False, [])
   \<and> is_process_running (\<lambda>p s. KillOk) (Some (- 7)) = (False, [])
   \<and> is_process_running (\<lambda>p s. KillOk) None = (False, [])
   \<and> is_process_running (\<lambda>p s. KillOk) (Some 42) = (True, [(42, 0)])"
  using C9_no_probe_for_none_or_nonpositive [of "Some 0" "\<lambda>p s. KillOk" "''x''"]
        C9_no_probe_for_none_or_nonpositive [of "Some (- 7)" "\<lambda>p s. KillOk" "''x''"]
        C9_no_probe_for_none_or_nonpositive [of "None" "\<lambda>p s. KillOk" "''x''"]
  by simp

text \<open>
  C6: startup reconciliation keeps the number and order of the records; a record that is
  running and whose handle is not alive gets status failed and keeps every other field;
  every other record is left as it was.
\<close>

theorem C6_startup_reconcile_frame:
  "length (reconcile_startup kill js) = length js
   \<and> (\<forall>i < length js.
        (status (js ! i) = ''running'' \<and> \<not> alive kill (pid (js ! i))
           \<longrightarrow> reconcile_startup kill js ! i = (js ! i)\<lparr>status := ''failed''\<rparr>)
      \<and> (\<not> (status (js ! i) = ''running'' \<and> \<not> alive kill (pid (js ! i)))
           \<longrightarrow> reconcile_startup kill js ! i = js ! i)
      \<and> command (reconcile_startup kill js ! i) = command (js ! i)
      \<and> pid (reconcile_startup kill js ! i) = pid (js ! i)
      \<and> gpu_id (reconcile_startup kill js ! i) = gpu_id (js ! i)
      \<and> start_time (reconcile_startup kill js ! i) = start_time (js ! i)
      \<and> log_file (reconcile_startup kill js ! i) = log_file (js ! i))"
  by (simp add: reconcile_startup_def mark_stale_def)

lemma update_job_ok:
  "status j = ''running'' \<longrightarrow> pid j \<noteq> None \<Longrightarrow>
   update_job kill waitpid j =
     Inr (if status j = ''running'' \<and> \<not> alive kill (pid j)
          then j\<lparr>status := (case waitpid (the (pid j)) WNOHANG of
                                WaitReturned q st \<Rightarrow> if st = 0 then ''completed'' else ''failed''
                              | ChildProcessError \<Rightarrow> ''failed'')\<rparr>
          else j,
          status j = ''running'' \<and> \<not> alive kill (pid j))"
  by (cases "pid j")
     (auto simp: update_job_def retrieve_retcode_def Let_def split: wait_result.splits)

lemma update_running_ok:
  "\<forall>j \<in> set js. status j = ''running'' \<longrightarrow> pid j \<noteq> None \<Longrightarrow>
   update_running kill waitpid js changed =
     Inr (map (\<lambda>j. fst (projr (update_job kill waitpid j))) js,
          changed \<or> (\<exists>j \<in> set js. status j = ''running'' \<and> \<not> alive kill (pid j)))"
proof (induction js arbitrary: changed)
  case Nil
  then show ?case by simp
next
  case (Cons j js)
  have j: "status j = ''running'' \<longrightarrow> pid j \<noteq> None" using Cons.prems by simp
  have rest: "\<forall>j \<in> set js. status j = ''running'' \<longrightarrow> pid j \<noteq> None" using Cons.prems by simp
  show ?case
    by (simp add: update_job_ok [OF j] Cons.IH [OF rest] del: is_process_running.simps)
qed

text \<open>
  What in-cycle reconciliation computes: in a ledger whose running records all carry a
  process id it returns; a running record whose handle is not alive is classified from
  the second component of the answer of \<open>os.waitpid\<close> called with \<open>WNOHANG\<close>, whatever the
  first component: completed when it is 0, failed when it is not 0 or when
  \<open>ChildProcessError\<close> was raised.  Every other record is unchanged, and the changed flag
  is set exactly when some record was classified.
\<close>

lemma update_running_classification:
  assumes "\<forall>j \<in> set js. status j = ''running'' \<longrightarrow> pid j \<noteq> None"
  shows "\<exists>js' changed'.
           update_running kill waitpid js False = Inr (js', changed')
         \<and> length js' = length js
         \<and> changed' = (\<exists>j \<in> set js. status j = ''running'' \<and> \<not> alive kill (pid j))
         \<and> (\<forall>i < length js.
              (status (js ! i) = ''running'' \<and> \<not> alive kill (pid (js ! i)) \<longrightarrow>
                 (\<exists>p. pid (js ! i) = Some p
                    \<and> js' ! i = (js ! i)\<lparr>status :=
                         (case waitpid p WNOHANG of
                            WaitReturned q st \<Rightarrow> if st = 0 then ''completed'' else ''failed''
                          | ChildProcessError \<Rightarrow> ''failed'')\<rparr>))
            \<and> (\<not> (status (js ! i) = ''running'' \<and> \<not> alive kill (pid (js ! i))) \<longrightarrow>
                 js' ! i = js ! i))"
proof -
  have each: "status (js ! i) = ''running'' \<longrightarrow> pid (js ! i) \<noteq> None" if "i < length js" for i
    using assms that by simp
  show ?thesis
    using each
    by (simp add: update_running_ok [OF assms] update_job_ok del: is_process_running.simps) fastforce
qed

theorem C6_witness:
  "reconcile_startup ex_kill ex_jobs =
     [(new_job ''a'')\<lparr>status := ''failed'', pid := Some 11\<rparr>,
      (new_job ''b'')\<lparr>status := ''failed'', pid := Some 12\<rparr>,
      (new_job ''c'')\<lparr>status := ''failed'', pid := Some 13\<rparr>,
      (new_job ''d'')\<lparr>status := ''running'', pid := Some 14\<rparr>,
      new_job ''e'']
   \<and> length (reconcile_startup ex_kill ex_jobs) = length ex_jobs
   \<and> reconcile_startup ex_kill ex_jobs ! 0 = (ex_jobs ! 0)\<lparr>status := ''failed''\<rparr>
   \<and> reconcile_startup ex_kill ex_jobs ! 3 = ex_jobs ! 3"
  using C6_startup_reconcile_frame [of ex_kill ex_jobs]
  by (simp add: reconcile_startup_def mark_stale_def ex_jobs_def ex_kill_def new_job_def)

lemma update_running_example:
  "update_running ex_kill ex_waitpid ex_jobs False =
       Inr ([(new_job ''a'')\<lparr>status := ''completed'', pid := Some 11\<rparr>,
             (new_job ''b'')\<lparr>status := ''failed'', pid := Some 12\<rparr>,
             (new_job ''c'')\<lparr>status := ''failed'', pid := Some 13\<rparr>,
             (new_job ''d'')\<lparr>status := ''running'', pid := Some 14\<rparr>,
             new_job ''e''], True)"
proof -
  have h: "\<forall>j \<in> set ex_jobs. status j = ''running'' \<longrightarrow> pid j \<noteq> None"
    by (simp add: ex_jobs_def new_job_def)
  show ?thesis
    using h update_running_classification [OF h, of ex_kill ex_waitpid]
    by (simp add: ex_jobs_def ex_kill_def ex_waitpid_def new_job_def update_job_def
        retrieve_retcode_def WNOHANG_def)
qed

text \<open>
  A running record without a process id makes \<open>os.waitpid\<close> raise \<open>TypeError\<close>; the
  program never writes such a record, since \<open>dispatch_job\<close> sets both fields together.
\<close>

lemma update_job_TypeError:
  "update_job kill waitpid ((new_job c)\<lparr>status := ''running''\<rparr>) = Inl TypeError"
  by (simp add: update_job_def new_job_def)

lemma ingest_appends:
  "\<exists>new. all_jobs (ingest_commands cmds L) = all_jobs L @ map new_job new
        \<and> distinct new
        \<and> set new = set cmds - command ` set (all_jobs L)
        \<and> jobs_file (ingest_commands cmds L) =
            (if new = [] then jobs_file L
             else Some (file_lines (jobs_file L) @ map JobLine (map new_job new)))"
proof (induction cmds arbitrary: L)
  case Nil
  show ?case by simp
next
  case (Cons cmd cmds)
  show ?case
  proof (cases "list_ex (\<lambda>j. command j = cmd) (all_jobs L)")
    case True
    then have mem: "cmd \<in> command ` set (all_jobs L)"
      by (auto simp: list_ex_iff)
    from Cons.IH [of L] obtain new where
      n: "all_jobs (ingest_commands cmds L) = all_jobs L @ map new_job new"
         "distinct new" "set new = set cmds - command ` set (all_jobs L)"
         "jobs_file (ingest_commands cmds L) =
            (if new = [] then jobs_file L
             else Some (file_lines (jobs_file L) @ map JobLine (map new_job new)))"
      by blast
    have "set new = set (cmd # cmds) - command ` set (all_jobs L)"
      using n(3) mem by auto
    with n True show ?thesis by auto
  next
    case False
    then have nmem: "cmd \<notin> command ` set (all_jobs L)"
      by (auto simp: list_ex_iff)
    let ?L = "\<lparr>all_jobs = all_jobs L @ [new_job cmd],
               jobs_file = save_job (jobs_file L) (new_job cmd)\<rparr>"
    from Cons.IH [of ?L] obtain new where
      n: "all_jobs (ingest_commands cmds ?L) = all_jobs ?L @ map new_job new"
         "distinct new" "set new = set cmds - command ` set (all_jobs ?L)"
         "jobs_file (ingest_commands cmds ?L) =
            (if new = [] then jobs_file ?L
             else Some (file_lines (jobs_file ?L) @ map JobLine (map new_job new)))"
      by blast
    have c: "command (new_job cmd) = cmd" by (simp add: new_job_def)
    have 1: "all_jobs (ingest_commands (cmd # cmds) L) = all_jobs L @ map new_job (cmd # new)"
      using n(1) False by simp
    have 2: "distinct (cmd # new)" using n(2,3) c by auto
    have 3: "set (cmd # new) = set (cmd # cmds) - command ` set (all_jobs L)"
      using n(3) nmem c by auto
    have sv: "save_job f j = Some (file_lines f @ [JobLine j])" for f j
      by (cases f) (simp_all add: file_lines_def)
    have 4: "jobs_file (ingest_commands (cmd # cmds) L) =
               Some (file_lines (jobs_file L) @ map JobLine (map new_job (cmd # new)))"
      using n(4) False by (simp add: sv file_lines_def)
    show ?thesis
      using 1 2 3 4 by (intro exI [of _ "cmd # new"]) simp
  qed
qed

lemma ingest_known:
  "set cmds \<subseteq> command ` set (all_jobs L) \<Longrightarrow> ingest_commands cmds L = L"
  by (induction cmds arbitrary: L) (auto simp: list_ex_iff)

lemma ingest_idem: "ingest_commands cmds (ingest_commands cmds L) = ingest_commands cmds L"
proof -
  obtain new where n: "all_jobs (ingest_commands cmds L) = all_jobs L @ map new_job new"
     "set new = set cmds - command ` set (all_jobs L)"
    using ingest_appends [of cmds L] by blast
  have "command ` set (map new_job new) = set new"
    by (force simp: new_job_def)
  then have "set cmds \<subseteq> command ` set (all_jobs (ingest_commands cmds L))"
    using n by (auto simp: image_Un)
  then show ?thesis by (rule ingest_known)
qed


lemma ingest_present:
  "set cmds \<subseteq> command ` set (all_jobs (ingest_commands cmds L))"
proof -
  obtain new where n: "all_jobs (ingest_commands cmds L) = all_jobs L @ map new_job new"
     "set new = set cmds - command ` set (all_jobs L)"
    using ingest_appends [of cmds L] by blast
  have "command ` set (map new_job new) = set new"
    by (force simp: new_job_def)
  then show ?thesis
    using n by (auto simp: image_Un)
qed

lemma non_terminal_new_job: "filter non_terminal (map new_job new) = map new_job new"
  by (induction new) (simp_all add: non_terminal_def new_job_def)

lemma command_new_job: "map command (map new_job new) = new"
  by (induction new) (simp_all add: new_job_def)

text \<open>
  C2: ingestion keeps the ledger and appends pending records only, one for each distinct
  command text of the source that no existing record carries, whatever the status of
  that record; a second ingestion of the same source changes nothing; and a ledger
  without two non-terminal records of the same text is still so after two ingestions.
\<close>

theorem C2_ingest_dedup:
  "(\<exists>new. all_jobs (load_new_commands src L) = all_jobs L @ map new_job new
          \<and> distinct new
          \<and> (\<forall>c \<in> set new. c \<notin> command ` set (all_jobs L)))
   \<and> load_new_commands src (load_new_commands src L) = load_new_commands src L
   \<and> (distinct (map command (filter non_terminal (all_jobs L))) \<longrightarrow>
        distinct (map command (filter non_terminal
          (all_jobs (load_new_commands src (load_new_commands src L))))))"
proof (cases src)
  case None
  then show ?thesis by simp
next
  case (Some f)
  obtain new where n: "all_jobs (ingest_commands (new_commands f) L) = all_jobs L @ map new_job new"
     "distinct new" "set new = set (new_commands f) - command ` set (all_jobs L)"
    using ingest_appends [of "new_commands f" L] by blast
  have a: "\<exists>new. all_jobs (load_new_commands src L) = all_jobs L @ map new_job new
          \<and> distinct new \<and> (\<forall>c \<in> set new. c \<notin> command ` set (all_jobs L))"
    using n Some by auto
  have b: "load_new_commands src (load_new_commands src L) = load_new_commands src L"
    using Some by (simp add: ingest_idem)
  have c: "distinct (map command (filter non_terminal (all_jobs (load_new_commands src L))))"
    if d: "distinct (map command (filter non_terminal (all_jobs L)))"
  proof -
    have "map command (filter non_terminal (all_jobs L @ map new_job new)) =
          map command (filter non_terminal (all_jobs L)) @ new"
      by (simp add: non_terminal_new_job command_new_job del: map_map)
    moreover have "set (map command (filter non_terminal (all_jobs L))) \<inter> set new = {}"
      using n(3) by auto
    ultimately show ?thesis
      using d n(1,2) Some by simp
  qed
  show ?thesis using a b c by simp
qed

lemma dropWhile_last: "dropWhile P xs \<noteq> [] \<Longrightarrow> last (dropWhile P xs) = last xs"
  by (induction xs) (auto split: if_splits)

lemma strip_ends:
  assumes "strip s \<noteq> []"
  shows "\<not> isspace (hd (strip s)) \<and> \<not> isspace (last (strip s))"
proof -
  let ?a = "dropWhile isspace s"
  let ?b = "dropWhile isspace (rev ?a)"
  have b: "?b \<noteq> []" using assms by (simp add: strip_def)
  have a: "?a \<noteq> []" using b by (cases ?a) simp_all
  have "last (strip s) = hd ?b" using b by (simp add: strip_def last_rev)
  moreover have "\<not> isspace (hd ?b)" using b by (rule hd_dropWhile)
  moreover have "hd (strip s) = last ?b" using b by (simp add: strip_def hd_rev)
  moreover have "last ?b = last (rev ?a)" using b by (rule dropWhile_last)
  moreover have "last (rev ?a) = hd ?a" using a by (simp add: last_rev)
  moreover have "\<not> isspace (hd ?a)" using a by (rule hd_dropWhile)
  ultimately show ?thesis by simp
qed

lemma dropWhile_all: "\<forall>x \<in> set xs. P x \<Longrightarrow> dropWhile P xs = []"
  by (induction xs) simp_all

lemma strip_blank:
  assumes "\<forall>ch \<in> set l. isspace ch"
  shows "strip l = []"
proof -
  have "dropWhile isspace l = []" using assms by (rule dropWhile_all)
  then show ?thesis unfolding strip_def by (simp only: rev.simps dropWhile.simps)
qed

lemma strip_surround:
  assumes a: "\<forall>ch \<in> set a. isspace ch" and b: "\<forall>ch \<in> set b. isspace ch"
  shows "strip (a @ c @ b) = strip c"
proof -
  have 1: "dropWhile isspace (a @ c @ b) = dropWhile isspace (c @ b)"
    using a by (simp add: dropWhile_append2)
  show ?thesis
  proof (cases "\<forall>ch \<in> set c. isspace ch")
    case True
    then have "\<forall>ch \<in> set (c @ b). isspace ch" using b by auto
    then have x: "dropWhile isspace (c @ b) = []" by (rule dropWhile_all)
    have y: "dropWhile isspace c = []" using True by (rule dropWhile_all)
    have "dropWhile isspace (a @ c @ b) = dropWhile isspace c"
      by (simp only: 1 x y)
    then show ?thesis unfolding strip_def by (simp only:)
  next
    case False
    then obtain x where "x \<in> set c" "\<not> isspace x" by blast
    then have 2: "dropWhile isspace (c @ b) = dropWhile isspace c @ b"
      by (simp add: dropWhile_append1)
    have "dropWhile isspace (rev b @ rev (dropWhile isspace c)) =
          dropWhile isspace (rev (dropWhile isspace c))"
      using b by (intro dropWhile_append2) simp
    then show ?thesis unfolding strip_def 1 2 by simp
  qed
qed

lemma ingest_new_once:
  "length (filter (\<lambda>j. command j = c)
     (drop (length (all_jobs L)) (all_jobs (ingest_commands cmds L)))) \<le> 1"
proof -
  obtain new where n: "all_jobs (ingest_commands cmds L) = all_jobs L @ map new_job new"
     "distinct new"
    using ingest_appends [of cmds L] by blast
  have "filter (\<lambda>j. command j = c) (map new_job new) = map new_job (filter (\<lambda>x. x = c) new)"
    by (induction new) (simp_all add: new_job_def)
  moreover have "length (filter (\<lambda>x. x = c) new) \<le> 1"
    using n(2) by (induction new) (auto simp: filter_empty_conv)
  ultimately show ?thesis using n(1) by simp
qed

text \<open>
  C10: every command taken from the source is a stripped, non-empty line; a line of
  whitespace only yields no command; two lines that differ only in the whitespace around
  the same text are stripped to the same command, for which ingestion appends at most one
  record; and the stripped text of every non-blank line is in the ledger afterwards.
\<close>

theorem C10_stripped_lines_dedup:
  "(\<forall>c \<in> set (new_commands f).
       c \<noteq> [] \<and> \<not> isspace (hd c) \<and> \<not> isspace (last c) \<and> (\<exists>l \<in> set f. c = strip l))
   \<and> ((\<forall>ch \<in> set l. isspace ch) \<longrightarrow> new_commands [l] = [])
   \<and> ((\<forall>ch \<in> set a1 \<union> set b1 \<union> set a2 \<union> set b2. isspace ch) \<longrightarrow>
         strip (a1 @ c @ b1) = strip (a2 @ c @ b2)
       \<and> length (filter (\<lambda>j. command j = strip (a1 @ c @ b1) \<or> command j = strip (a2 @ c @ b2))
           (drop (length (all_jobs L)) (all_jobs (load_new_commands (Some f) L)))) \<le> 1)
   \<and> (\<forall>l \<in> set f. strip l \<noteq> [] \<longrightarrow>
         strip l \<in> command ` set (all_jobs (load_new_commands (Some f) L)))"
proof -
  have 1: "\<forall>c \<in> set (new_commands f).
       c \<noteq> [] \<and> \<not> isspace (hd c) \<and> \<not> isspace (last c) \<and> (\<exists>l \<in> set f. c = strip l)"
    using strip_ends by (auto simp: new_commands_def)
  have 2: "(\<forall>ch \<in> set l. isspace ch) \<longrightarrow> new_commands [l] = []"
    by (simp add: new_commands_def strip_blank)
  have 3: "strip (a1 @ c @ b1) = strip (a2 @ c @ b2)
       \<and> length (filter (\<lambda>j. command j = strip (a1 @ c @ b1) \<or> command j = strip (a2 @ c @ b2))
           (drop (length (all_jobs L)) (all_jobs (load_new_commands (Some f) L)))) \<le> 1"
    if ws: "\<forall>ch \<in> set a1 \<union> set b1 \<union> set a2 \<union> set b2. isspace ch"
  proof -
    have e1: "strip (a1 @ c @ b1) = strip c" using ws by (intro strip_surround) auto
    have e2: "strip (a2 @ c @ b2) = strip c" using ws by (intro strip_surround) auto
    show ?thesis
      using ingest_new_once [of "strip c" L "new_commands f"] by (simp add: e1 e2)
  qed
  have 4: "\<forall>l \<in> set f. strip l \<noteq> [] \<longrightarrow>
         strip l \<in> command ` set (all_jobs (load_new_commands (Some f) L))"
  proof (intro ballI impI)
    fix l assume "l \<in> set f" "strip l \<noteq> []"
    then have "strip l \<in> set (new_commands f)" by (auto simp: new_commands_def)
    then show "strip l \<in> command ` set (all_jobs (load_new_commands (Some f) L))"
      using ingest_present [of "new_commands f" L] by auto
  qed
  show ?thesis using 1 2 3 4 by blast
qed


theorem C2_witness:
  "distinct (map command (filter non_terminal (all_jobs ex_ledger)))
   \<and> all_jobs (load_new_commands (Some ex_source) ex_ledger) =
       [(new_job ''train a'')\<lparr>status := ''completed''\<rparr>, new_job ''train b'']
   \<and> load_new_commands (Some ex_source) (load_new_commands (Some ex_source) ex_ledger) =
       load_new_commands (Some ex_source) ex_ledger
   \<and> distinct (map command (filter non_terminal
        (all_jobs (load_new_commands (Some ex_source) (load_new_commands (Some ex_source) ex_ledger)))))"
  using C2_ingest_dedup [of "Some ex_source" ex_ledger]
  by (simp add: ex_ledger_def ex_source_def new_commands_def strip_def isspace_def
      new_job_def non_terminal_def)

theorem C10_witness:
  "new_commands ex_source = [''train a'', ''train b'', ''train b'']
   \<and> strip (''  '' @ ''train b'' @ ('' '' @ [CHR 0x0A])) = strip ([CHR 0x09] @ ''train b'' @ [])
   \<and> length (filter (\<lambda>j. command j = ''train b'')
         (drop (length (all_jobs ex_ledger))
            (all_jobs (load_new_commands (Some ex_source) ex_ledger)))) = 1"
  using C10_stripped_lines_dedup [of ex_source "''   ''" "''  ''" "'' '' @ [CHR 0x0A]"
      "[CHR 0x09]" "[]" "''train b''" ex_ledger]
  by (simp add: ex_ledger_def ex_source_def new_commands_def strip_def isspace_def new_job_def)

lemma index_of_update: "xs[index_of xs x := x] = xs"
proof (induction xs)
  case Nil
  show ?case by simp
next
  case (Cons y ys)
  then show ?case by (cases "y = x") (simp_all add: index_of_def)
qed

lemma assign_job_eq:
  "assign_job launch thr i s =
     (case select_gpu thr (free_mem_dict s) of
        None \<Rightarrow> None
      | Some (g, m) \<Rightarrow>
          Some \<lparr>all_jobs = (all_jobs s)[i := dispatch_job launch (launched s) (all_jobs s ! i) g],
                jobs_file = Some (map JobLine
                   ((all_jobs s)[i := dispatch_job launch (launched s) (all_jobs s ! i) g])),
                free_mem_dict = subtract_mem (free_mem_dict s) g thr,
                launched = Suc (launched s)\<rparr>)"
  by (simp add: assign_job_def Let_def index_of_update rewrite_jobs_file_def
      split: option.splits prod.splits)

lemma select_gpu_None: "select_gpu thr d = None \<longleftrightarrow> (\<forall>x \<in> set d. snd x < of_int thr)"
proof -
  have "select_gpu thr d = None \<longleftrightarrow> sort_by_mem_reverse (suitable_gpus thr d) = []"
    by (simp add: select_gpu_def split: list.splits)
  also have "\<dots> \<longleftrightarrow> suitable_gpus thr d = []"
    unfolding sort_by_mem_reverse_def by (metis length_0_conv length_sort)
  also have "\<dots> \<longleftrightarrow> (\<forall>x \<in> set d. snd x < of_int thr)"
    by (auto simp: suitable_gpus_def filter_empty_conv)
  finally show ?thesis .
qed

lemma select_gpu_Some:
  assumes "select_gpu thr d = Some b"
  shows "b \<in> set d" and "of_int thr \<le> snd b"
    and "\<forall>x \<in> set d. of_int thr \<le> snd x \<longrightarrow> snd x \<le> snd b"
    and "\<exists>ys zs. d = ys @ b # zs \<and> (\<forall>y \<in> set ys. \<not> (of_int thr \<le> snd y \<and> snd b \<le> snd y))"
proof -
  let ?f = "\<lambda>x :: int \<times> rat. - snd x"
  let ?xs = "suitable_gpus thr d"
  obtain t where srt: "sort_key ?f ?xs = b # t"
    using assms by (auto simp: select_gpu_def sort_by_mem_reverse_def split: list.splits)
  have "b \<in> set (sort_key ?f ?xs)" using srt by simp
  then have bx: "b \<in> set ?xs" by simp
  then show bd: "b \<in> set d" and thr: "of_int thr \<le> snd b"
    by (auto simp: suitable_gpus_def)
  have "sorted (map ?f (b # t))" using sorted_sort_key [of ?f ?xs] srt by simp
  then have "\<forall>x \<in> set t. ?f b \<le> ?f x" by simp
  moreover have "set ?xs = insert b (set t)"
    using srt by (metis list.simps(15) set_sort)
  ultimately have "\<forall>x \<in> set ?xs. snd x \<le> snd b" by auto
  then show mx: "\<forall>x \<in> set d. of_int thr \<le> snd x \<longrightarrow> snd x \<le> snd b"
    by (auto simp: suitable_gpus_def)
  have "filter (\<lambda>y. ?f y = ?f b) (sort_key ?f ?xs) = filter (\<lambda>y. ?f y = ?f b) ?xs"
    by (rule sort_key_stable)
  then have "filter (\<lambda>y. ?f y = ?f b) ?xs = b # filter (\<lambda>y. ?f y = ?f b) t"
    using srt by simp
  then have "filter (\<lambda>y. of_int thr \<le> snd y \<and> snd y = snd b) d = b # filter (\<lambda>y. ?f y = ?f b) t"
    by (simp add: suitable_gpus_def case_prod_beta conj_commute)
  then obtain ys zs where d: "d = ys @ b # zs"
      and ys: "\<forall>y \<in> set ys. \<not> (of_int thr \<le> snd y \<and> snd y = snd b)"
    unfolding filter_eq_Cons_iff by blast
  have "\<forall>y \<in> set ys. \<not> (of_int thr \<le> snd y \<and> snd b \<le> snd y)"
  proof
    fix y assume y: "y \<in> set ys"
    then have "y \<in> set d" using d by simp
    then have "of_int thr \<le> snd y \<longrightarrow> snd y \<le> snd b" using mx by blast
    then show "\<not> (of_int thr \<le> snd y \<and> snd b \<le> snd y)" using ys y by force
  qed
  then show "\<exists>ys zs. d = ys @ b # zs \<and> (\<forall>y \<in> set ys. \<not> (of_int thr \<le> snd y \<and> snd b \<le> snd y))"
    using d by blast
qed

lemma select_gpu_exists:
  assumes "\<exists>x \<in> set d. of_int thr \<le> snd x"
  shows "\<exists>b. select_gpu thr d = Some b"
proof (cases "select_gpu thr d")
  case None
  then show ?thesis using assms by (auto simp: select_gpu_None)
next
  case (Some b)
  then show ?thesis by blast
qed

lemma assign_job_None:
  "assign_job launch thr i s = None \<longleftrightarrow> select_gpu thr (free_mem_dict s) = None"
  by (simp add: assign_job_eq split: option.splits)

lemma assign_job_Some:
  assumes "select_gpu thr (free_mem_dict s) = Some (g, m)"
  shows "assign_job launch thr i s =
          Some \<lparr>all_jobs = (all_jobs s)[i := dispatch_job launch (launched s) (all_jobs s ! i) g],
                jobs_file = Some (map JobLine
                   ((all_jobs s)[i := dispatch_job launch (launched s) (all_jobs s ! i) g])),
                free_mem_dict = subtract_mem (free_mem_dict s) g thr,
                launched = Suc (launched s)\<rparr>"
  using assms by (simp add: assign_job_eq)

lemma assign_jobs_prefix:
  assumes "distinct ps" and "\<forall>p \<in> set ps. p < length (all_jobs s)"
  shows "\<exists>k \<le> length ps.
           launched (assign_jobs launch thr ps s) = launched s + k
         \<and> length (all_jobs (assign_jobs launch thr ps s)) = length (all_jobs s)
         \<and> (\<forall>n < k. \<exists>g. all_jobs (assign_jobs launch thr ps s) ! (ps ! n) =
                 dispatch_job launch (launched s + n) (all_jobs s ! (ps ! n)) g)
         \<and> (\<forall>i. i \<notin> set (take k ps) \<longrightarrow>
                 all_jobs (assign_jobs launch thr ps s) ! i = all_jobs s ! i)
         \<and> (k < length ps \<longrightarrow> select_gpu thr (free_mem_dict (assign_jobs launch thr ps s)) = None)"
  using assms
proof (induction ps arbitrary: s)
  case Nil
  show ?case by simp
next
  case (Cons p ps)
  show ?case
  proof (cases "select_gpu thr (free_mem_dict s)")
    case None
    then have "assign_job launch thr p s = None"
      by (simp add: assign_job_None)
    then have "assign_jobs launch thr (p # ps) s = s"
      by simp
    then show ?thesis using None by (intro exI [of _ 0]) simp
  next
    case (Some b)
    obtain g m where b: "b = (g, m)" by (cases b)
    let ?u = "dispatch_job launch (launched s) (all_jobs s ! p) g"
    let ?s1 = "\<lparr>all_jobs = (all_jobs s)[p := ?u],
                jobs_file = Some (map JobLine ((all_jobs s)[p := ?u])),
                free_mem_dict = subtract_mem (free_mem_dict s) g thr,
                launched = Suc (launched s)\<rparr>"
    let ?s' = "assign_jobs launch thr ps ?s1"
    have step: "assign_jobs launch thr (p # ps) s = ?s'"
      using Some b by (simp add: assign_job_Some)
    have p: "p < length (all_jobs s)" "p \<notin> set ps" "distinct ps"
      using Cons.prems by auto
    have rng: "\<forall>q \<in> set ps. q < length (all_jobs ?s1)"
      using Cons.prems by simp
    from Cons.IH [OF p(3) rng] obtain k where k: "k \<le> length ps"
      and l: "launched ?s' = launched ?s1 + k"
      and len: "length (all_jobs ?s') = length (all_jobs ?s1)"
      and asg: "\<forall>n < k. \<exists>g. all_jobs ?s' ! (ps ! n) =
                 dispatch_job launch (launched ?s1 + n) (all_jobs ?s1 ! (ps ! n)) g"
      and frm: "\<forall>i. i \<notin> set (take k ps) \<longrightarrow> all_jobs ?s' ! i = all_jobs ?s1 ! i"
      and brk: "k < length ps \<longrightarrow> select_gpu thr (free_mem_dict ?s') = None"
      by blast
    have pk: "p \<notin> set (take k ps)" using p(2) by (auto dest: in_set_takeD)
    have 1: "launched ?s' = launched s + Suc k" using l by simp
    have 2: "length (all_jobs ?s') = length (all_jobs s)" using len by simp
    have 3: "\<exists>g. all_jobs ?s' ! ((p # ps) ! n) =
                 dispatch_job launch (launched s + n) (all_jobs s ! ((p # ps) ! n)) g"
      if n: "n < Suc k" for n
    proof (cases n)
      case 0
      have "all_jobs ?s' ! p = all_jobs ?s1 ! p" using frm pk by blast
      also have "\<dots> = ?u" using p(1) by simp
      finally show ?thesis using 0 by auto
    next
      case (Suc n')
      then have n': "n' < k" using n by simp
      then have mem: "ps ! n' \<in> set ps" using k by simp
      then have ne: "ps ! n' \<noteq> p" using p(2) by auto
      from asg n' obtain g' where
        "all_jobs ?s' ! (ps ! n') =
           dispatch_job launch (launched ?s1 + n') (all_jobs ?s1 ! (ps ! n')) g'"
        by blast
      then have "all_jobs ?s' ! (ps ! n') =
           dispatch_job launch (launched s + Suc n') (all_jobs s ! (ps ! n')) g'"
        using ne by simp
      then show ?thesis using Suc by auto
    qed
    have 4: "all_jobs ?s' ! i = all_jobs s ! i" if "i \<notin> set (take (Suc k) (p # ps))" for i
    proof -
      have "i \<noteq> p" "i \<notin> set (take k ps)" using that by auto
      then show ?thesis using frm by simp
    qed
    have 5: "Suc k < length (p # ps) \<longrightarrow> select_gpu thr (free_mem_dict ?s') = None"
      using brk by simp
    show ?thesis
      unfolding step using k 1 2 3 4 5 by (intro exI [of _ "Suc k"]) simp
  qed
qed

lemma pending_jobs_props:
  "sorted (pending_jobs js)" "distinct (pending_jobs js)"
  "set (pending_jobs js) = {i. i < length js \<and> status (js ! i) = ''pending''}"
  by (auto simp: pending_jobs_def sorted_wrt_filter)

lemma status_dispatch_job: "status (dispatch_job launch n j g) = ''running''"
  and gpu_id_dispatch_job: "gpu_id (dispatch_job launch n j g) = Some g"
  and command_dispatch_job: "command (dispatch_job launch n j g) = command j"
  by (simp_all add: dispatch_job_def Let_def)



lemma ex_select_first: "select_gpu 6000 [(0, 8000), (1, 10000)] = Some (1, 10000)"
  by (simp add: select_gpu_def sort_by_mem_reverse_def suitable_gpus_def)

lemma ex_select_second: "select_gpu 6000 [(0, 8000), (1, 4000)] = Some (0, 8000)"
  by (simp add: select_gpu_def sort_by_mem_reverse_def suitable_gpus_def)




lemma assign_jobs_first:
  assumes sel: "select_gpu thr (free_mem_dict s) = Some (g, m)"
    and i: "i < length (all_jobs s)" "i \<notin> set rest"
    and rest: "distinct rest" "\<forall>p \<in> set rest. p < length (all_jobs s)"
  shows "all_jobs (assign_jobs launch thr (i # rest) s) ! i =
           dispatch_job launch (launched s) (all_jobs s ! i) g"
proof -
  let ?u = "dispatch_job launch (launched s) (all_jobs s ! i) g"
  let ?s1 = "\<lparr>all_jobs = (all_jobs s)[i := ?u],
              jobs_file = Some (map JobLine ((all_jobs s)[i := ?u])),
              free_mem_dict = subtract_mem (free_mem_dict s) g thr,
              launched = Suc (launched s)\<rparr>"
  have step: "assign_jobs launch thr (i # rest) s = assign_jobs launch thr rest ?s1"
    using sel by (simp add: assign_job_Some)
  have rng: "\<forall>p \<in> set rest. p < length (all_jobs ?s1)" using rest(2) by simp
  from assign_jobs_prefix [OF rest(1) rng, of launch thr] obtain k where
    frm: "\<forall>j. j \<notin> set (take k rest) \<longrightarrow>
            all_jobs (assign_jobs launch thr rest ?s1) ! j = all_jobs ?s1 ! j"
    by blast
  have "i \<notin> set (take k rest)" using i(2) by (auto dest: in_set_takeD)
  then have "all_jobs (assign_jobs launch thr rest ?s1) ! i = all_jobs ?s1 ! i"
    using frm by blast
  then show ?thesis using step i(1) by simp
qed

lemma pending_jobs_Cons:
  assumes "pending_jobs js = i # rest"
  shows "i < length js" "i \<notin> set rest" "distinct rest" "\<forall>p \<in> set rest. p < length js"
    "status (js ! i) = ''pending''" "\<forall>j < i. status (js ! j) \<noteq> ''pending''"
proof -
  have d: "distinct (i # rest)" using pending_jobs_props(2) [of js] assms by simp
  have s: "set (i # rest) = {i. i < length js \<and> status (js ! i) = ''pending''}"
    using pending_jobs_props(3) [of js] assms by simp
  have srt: "sorted (i # rest)" using pending_jobs_props(1) [of js] assms by simp
  show "i < length js" "status (js ! i) = ''pending''" using s by auto
  show "i \<notin> set rest" "distinct rest" using d by auto
  show "\<forall>p \<in> set rest. p < length js" using s by auto
  show "\<forall>j < i. status (js ! j) \<noteq> ''pending''"
  proof (intro allI impI notI)
    fix j assume j: "j < i" "status (js ! j) = ''pending''"
    have "i < length js" using s by auto
    then have "j \<in> set (i # rest)" using j s by auto
    then have "i \<le> j" using srt by auto
    then show False using j by simp
  qed
qed

text \<open>
  C1: in a cycle whose reconciliation returns, whose first pending job is at position i
  and whose snapshot holds a device at or above the threshold, the cycle returns with job
  i running on a device of the snapshot that is at or above the threshold and whose free
  memory no qualifying device exceeds.  The witness is the snapshot with 8000 on device 0
  and 10000 on device 1 at threshold 6000: the single pending job gets device 1.
\<close>

theorem C1_first_pending_gets_max_free_device:
  assumes rec: "update_running kill waitpid (load_jobs stored) False = Inr (js, changed)"
    and pend: "pending_jobs js = i # rest"
    and snap: "get_all_gpus_free_mem_mb device_count nvml (gpu_ids cfg) = d"
    and fit: "\<exists>x \<in> set d. of_int (min_free_mem_mb cfg) \<le> snd x"
  shows "\<exists>s' g m. run_cycle kill waitpid device_count nvml launch cfg n stored = Inr s'
           \<and> (g, m) \<in> set d \<and> of_int (min_free_mem_mb cfg) \<le> m
           \<and> (\<forall>x \<in> set d. of_int (min_free_mem_mb cfg) \<le> snd x \<longrightarrow> snd x \<le> m)
           \<and> (\<forall>j < i. status (js ! j) \<noteq> ''pending'')
           \<and> all_jobs s' ! i = dispatch_job launch n (js ! i) g
           \<and> status (all_jobs s' ! i) = ''running''
           \<and> gpu_id (all_jobs s' ! i) = Some g"
proof -
  let ?thr = "min_free_mem_mb cfg"
  let ?f = "if changed then rewrite_jobs_file js else stored"
  let ?s = "\<lparr>all_jobs = js, jobs_file = ?f, free_mem_dict = d, launched = n\<rparr>"
  let ?s' = "assign_jobs launch ?thr (i # rest) ?s"
  have ne: "d \<noteq> []" using fit by auto
  have run: "run_cycle kill waitpid device_count nvml launch cfg n stored = Inr ?s'"
    using rec pend snap ne by (simp add: run_cycle_def Let_def)
  obtain b where b: "select_gpu ?thr d = Some b"
    using select_gpu_exists [OF fit] by blast
  obtain g m where gm: "b = (g, m)" by (cases b)
  have sel: "select_gpu ?thr (free_mem_dict ?s) = Some (g, m)" using b gm by simp
  note p = pending_jobs_Cons [OF pend]
  have "all_jobs ?s' ! i = dispatch_job launch (launched ?s) (all_jobs ?s ! i) g"
    using p by (intro assign_jobs_first [OF sel]) simp_all
  then have job: "all_jobs ?s' ! i = dispatch_job launch n (js ! i) g" by simp
  have mx: "(g, m) \<in> set d" "of_int ?thr \<le> m"
    "\<forall>x \<in> set d. of_int ?thr \<le> snd x \<longrightarrow> snd x \<le> m"
    using select_gpu_Some(1,2,3) [OF b] gm by simp_all
  show ?thesis
    using run job p(6) mx
    by (intro exI [of _ ?s'] exI [of _ g] exI [of _ m])
       (simp add: status_dispatch_job gpu_id_dispatch_job del: assign_jobs.simps)
qed

lemma ex_nvml_snapshot: "get_all_gpus_free_mem_mb 2 ex_nvml None = [(0, 8000), (1, 10000)]"
  by (simp add: get_all_gpus_free_mem_mb_def get_gpu_free_mem_mb_def ex_nvml_def
      numeral_2_eq_2)


theorem C1_witness:
  "run_cycle ex_kill ex_waitpid 2 ex_nvml ex_launch ex_config 0 (Some [JobLine (new_job ''a'')]) =
     Inr \<lparr>all_jobs = [dispatch_job ex_launch 0 (new_job ''a'') 1],
          jobs_file = Some [JobLine (dispatch_job ex_launch 0 (new_job ''a'') 1)],
          free_mem_dict = [(0, 8000), (1, 4000)],
          launched = 1\<rparr>
   \<and> gpu_id (dispatch_job ex_launch 0 (new_job ''a'') 1) = Some 1"
proof -
  have rec: "update_running ex_kill ex_waitpid (load_jobs (Some [JobLine (new_job ''a'')])) False =
              Inr ([new_job ''a''], False)"
    by (simp add: update_job_def new_job_def)
  have pend: "pending_jobs [new_job ''a''] = 0 # []"
    by (simp add: pending_jobs_def new_job_def)
  have snap: "get_all_gpus_free_mem_mb 2 ex_nvml (gpu_ids ex_config) = [(0, 8000), (1, 10000)]"
    by (simp add: ex_nvml_snapshot ex_config_def)
  have fit: "\<exists>x \<in> set [(0 :: int, 8000 :: rat), (1, 10000)]. of_int (min_free_mem_mb ex_config) \<le> snd x"
    by (simp add: ex_config_def)
  have c: ?thesis
    unfolding run_cycle_def rec snap
    by (simp add: pend ex_config_def assign_job_eq ex_select_first subtract_mem_def
        rewrite_jobs_file_def gpu_id_dispatch_job)
  show ?thesis
    using C1_first_pending_gets_max_free_device [OF rec pend snap fit, of ex_launch 0]
    by - (rule c)
qed

lemma keys_subtract_mem: "map fst (subtract_mem d g thr) = map fst d"
  by (induction d) (auto simp: subtract_mem_def)

lemma map_of_subtract_mem:
  "map_of (subtract_mem d g thr) g' =
     (if g' = g then map_option (\<lambda>m. m - of_int thr) (map_of d g) else map_of d g')"
  by (induction d) (auto simp: subtract_mem_def)

text \<open>
  C4: an assignment to the selected device g, read at m, leaves a snapshot with the same
  devices in the same order, in which g reads m minus the threshold and every other
  device reads as before; a following assignment in the same pass goes to g only if that
  decremented reading still reaches the threshold.  The witness is device 1 at 10000 with
  threshold 6000: it is left at 4000 and the second job is put on device 0.
\<close>

theorem C4_reservation_decrement:
  assumes dist: "distinct (map fst (free_mem_dict s))"
    and sel: "select_gpu thr (free_mem_dict s) = Some (g, m)"
  shows "\<exists>s1. assign_job launch thr i s = Some s1
          \<and> map_of (free_mem_dict s) g = Some m
          \<and> map_of (free_mem_dict s1) g = Some (m - of_int thr)
          \<and> (\<forall>g'. g' \<noteq> g \<longrightarrow> map_of (free_mem_dict s1) g' = map_of (free_mem_dict s) g')
          \<and> map fst (free_mem_dict s1) = map fst (free_mem_dict s)
          \<and> (\<forall>k s2. assign_job launch thr k s1 = Some s2 \<and> k < length (all_jobs s1)
                  \<and> gpu_id (all_jobs s2 ! k) = Some g \<longrightarrow> of_int thr \<le> m - of_int thr)"
proof -
  let ?u = "dispatch_job launch (launched s) (all_jobs s ! i) g"
  let ?s1 = "\<lparr>all_jobs = (all_jobs s)[i := ?u],
              jobs_file = Some (map JobLine ((all_jobs s)[i := ?u])),
              free_mem_dict = subtract_mem (free_mem_dict s) g thr,
              launched = Suc (launched s)\<rparr>"
  have step: "assign_job launch thr i s = Some ?s1" by (rule assign_job_Some [OF sel])
  have "(g, m) \<in> set (free_mem_dict s)" using select_gpu_Some(1) [OF sel] .
  then have before: "map_of (free_mem_dict s) g = Some m" using dist by simp
  have after: "map_of (free_mem_dict ?s1) g = Some (m - of_int thr)"
    using before by (simp add: map_of_subtract_mem)
  have others: "\<forall>g'. g' \<noteq> g \<longrightarrow> map_of (free_mem_dict ?s1) g' = map_of (free_mem_dict s) g'"
    by (simp add: map_of_subtract_mem)
  have keys: "map fst (free_mem_dict ?s1) = map fst (free_mem_dict s)"
    by (simp add: keys_subtract_mem)
  have nxt: "of_int thr \<le> m - of_int thr"
    if a: "assign_job launch thr k ?s1 = Some s2" and k: "k < length (all_jobs ?s1)"
      and on: "gpu_id (all_jobs s2 ! k) = Some g" for k s2
  proof -
    have "select_gpu thr (free_mem_dict ?s1) \<noteq> None"
      using a assign_job_None [of launch thr k ?s1] by auto
    then obtain b where b: "select_gpu thr (free_mem_dict ?s1) = Some b"
      by blast
    obtain g2 m2 where gm: "b = (g2, m2)" by (cases b)
    have "all_jobs s2 ! k = dispatch_job launch (launched ?s1) (all_jobs ?s1 ! k) g2"
      using a k assign_job_Some [of thr ?s1 g2 m2 launch k] b gm by auto
    then have "g2 = g" using on by (simp add: gpu_id_dispatch_job)
    then have "(g, m2) \<in> set (free_mem_dict ?s1)" "of_int thr \<le> m2"
      using select_gpu_Some(1,2) [OF b] gm by simp_all
    moreover have "distinct (map fst (free_mem_dict ?s1))" using dist keys by simp
    ultimately have "map_of (free_mem_dict ?s1) g = Some m2" "of_int thr \<le> m2" by simp_all
    then show ?thesis using after by simp
  qed
  show ?thesis
    using step before after others keys nxt by (intro exI [of _ ?s1]) blast
qed

theorem C4_witness:
  "assign_job ex_launch 6000 0 (ex_state [new_job ''a'', new_job ''b''] [(0, 8000), (1, 10000)]) =
     Some \<lparr>all_jobs = [dispatch_job ex_launch 0 (new_job ''a'') 1, new_job ''b''],
           jobs_file = Some [JobLine (dispatch_job ex_launch 0 (new_job ''a'') 1), JobLine (new_job ''b'')],
           free_mem_dict = [(0, 8000), (1, 4000)],
           launched = 1\<rparr>
   \<and> all_jobs (assign_jobs ex_launch 6000 [0, 1]
        (ex_state [new_job ''a'', new_job ''b''] [(0, 8000), (1, 10000)])) =
       [dispatch_job ex_launch 0 (new_job ''a'') 1, dispatch_job ex_launch 1 (new_job ''b'') 0]
   \<and> gpu_id (dispatch_job ex_launch 1 (new_job ''b'') 0) = Some 0"
proof -
  have dist: "distinct (map fst (free_mem_dict (ex_state [new_job ''a'', new_job ''b''] [(0, 8000), (1, 10000)])))"
    by (simp add: ex_state_def)
  have sel: "select_gpu 6000 (free_mem_dict (ex_state [new_job ''a'', new_job ''b''] [(0, 8000), (1, 10000)])) =
       Some (1, 10000)"
    by (simp add: ex_state_def ex_select_first)
  have c: ?thesis
    unfolding ex_state_def
    by (simp add: assign_job_eq ex_select_first ex_select_second subtract_mem_def
        gpu_id_dispatch_job)
  show ?thesis
    using C4_reservation_decrement [OF dist sel, of ex_launch 0]
    by - (rule c)
qed






lemma parse_lines_JobLine: "parse_lines (map JobLine js) = js"
  by (induction js) simp_all

lemma ingest_persisted:
  assumes "persisted L"
  shows "persisted (ingest_commands cmds L)"
proof -
  obtain new where n: "all_jobs (ingest_commands cmds L) = all_jobs L @ map new_job new"
    "jobs_file (ingest_commands cmds L) =
       (if new = [] then jobs_file L
        else Some (file_lines (jobs_file L) @ map JobLine (map new_job new)))"
    using ingest_appends [of cmds L] by blast
  show ?thesis using n assms by (simp add: file_lines_def)
qed

lemma update_job_unchanged: "update_job kill waitpid j = Inr (j', False) \<Longrightarrow> j' = j"
  by (auto simp: update_job_def Let_def split: if_splits option.splits)

lemma update_running_unchanged:
  "update_running kill waitpid js c = Inr (js', False) \<Longrightarrow> \<not> c \<and> js' = js"
proof (induction js arbitrary: c js')
  case Nil
  then show ?case by simp
next
  case (Cons j js)
  from Cons.prems obtain j' cj js1 where
    j: "update_job kill waitpid j = Inr (j', cj)"
    and r: "update_running kill waitpid js (c \<or> cj) = Inr (js1, False)"
    and e: "js' = j' # js1"
    by (auto split: sum.splits prod.splits)
  from Cons.IH [OF r] have "\<not> (c \<or> cj)" "js1 = js" by simp_all
  then show ?case using j e update_job_unchanged [of kill waitpid j j'] by simp
qed

lemma assign_job_persisted:
  assumes "assign_job launch thr i s = Some s1"
  shows "persisted s1"
  using assms by (auto simp: assign_job_eq split: option.splits)

lemma assign_jobs_persisted:
  "assign_jobs launch thr ps s = s \<or> persisted (assign_jobs launch thr ps s)"
proof (induction ps arbitrary: s)
  case Nil
  show ?case by simp
next
  case (Cons p ps)
  show ?case
  proof (cases "assign_job launch thr p s")
    case None
    then show ?thesis by simp
  next
    case (Some s1)
    have "persisted s1" using Some by (rule assign_job_persisted)
    then show ?thesis using Some Cons.IH [of s1] by auto
  qed
qed

lemma run_cycle_persisted:
  assumes "run_cycle kill waitpid device_count nvml launch cfg n stored = Inr s'"
  shows "load_jobs (jobs_file s') = all_jobs s'" and "jobs_file s' = stored \<or> persisted s'"
proof -
  obtain js changed where
    rec: "update_running kill waitpid (load_jobs stored) False = Inr (js, changed)"
    using assms by (auto simp: run_cycle_def split: sum.splits)
  let ?f = "if changed then rewrite_jobs_file js else stored"
  let ?s0 = "\<lparr>all_jobs = js, jobs_file = ?f, free_mem_dict = [], launched = n\<rparr>"
  let ?d = "get_all_gpus_free_mem_mb device_count nvml (gpu_ids cfg)"
  let ?s1 = "\<lparr>all_jobs = js, jobs_file = ?f, free_mem_dict = ?d, launched = n\<rparr>"
  let ?s2 = "assign_jobs launch (min_free_mem_mb cfg) (pending_jobs js) ?s1"
  have unch: "js = load_jobs stored" if "\<not> changed"
    using rec that update_running_unchanged [of kill waitpid "load_jobs stored" False js] by simp
  have f: "load_jobs ?f = js" "?f = stored \<or> ?f = Some (map JobLine js)"
    using unch by (auto simp: rewrite_jobs_file_def parse_lines_JobLine)
  have cases: "s' = ?s0 \<or> s' = ?s2"
    using assms rec by (auto simp: run_cycle_def Let_def split: if_splits)
  have s2: "?s2 = ?s1 \<or> persisted ?s2" by (rule assign_jobs_persisted)
  have p: "persisted s \<Longrightarrow> load_jobs (jobs_file s) = all_jobs s" for s :: cycle_state
    by (simp add: parse_lines_JobLine)
  show "load_jobs (jobs_file s') = all_jobs s'"
    using cases s2 f(1) p [of ?s2] by auto
  show "jobs_file s' = stored \<or> persisted s'"
    using cases s2 f(2) by auto
qed


text \<open>
  C3: every write of the ledger file leaves it equal to the job list in memory.  This holds
  after startup (the rewrite that follows reconciliation and every append of ingestion),
  after each single append, and after each assignment, whose rewrite is done before the
  pass goes on to the next pending job; the job just assigned is running in both.  At the
  end of a cycle the file reads back as the job list in memory, and the file is either
  the one the cycle started from or exactly the lines of the job list in memory.
\<close>

theorem C3_file_equals_memory_after_each_write:
  "persisted (startup kill src stored)
   \<and> (persisted L \<longrightarrow>
        persisted \<lparr>all_jobs = all_jobs L @ [new_job cmd],
                   jobs_file = save_job (jobs_file L) (new_job cmd)\<rparr>
      \<and> persisted (ingest_commands cmds L))
   \<and> (\<forall>s1. assign_job launch thr i s = Some s1 \<longrightarrow>
          persisted s1
        \<and> load_jobs (jobs_file s1) = all_jobs s1
        \<and> (i < length (all_jobs s) \<longrightarrow> status (all_jobs s1 ! i) = ''running'')
        \<and> assign_jobs launch thr (i # rest) s = assign_jobs launch thr rest s1)
   \<and> (\<forall>s'. run_cycle kill waitpid device_count nvml launch cfg n stored = Inr s' \<longrightarrow>
          load_jobs (jobs_file s') = all_jobs s'
        \<and> (jobs_file s' = stored \<or> persisted s'))"
proof -
  let ?js = "reconcile_startup kill (load_jobs stored)"
  let ?L0 = "\<lparr>all_jobs = ?js, jobs_file = rewrite_jobs_file ?js\<rparr>"
  have "persisted ?L0" by (simp add: rewrite_jobs_file_def)
  then have "persisted (load_new_commands src ?L0)"
    by (cases src) (simp_all add: ingest_persisted del: ledger.simps)
  then have 1: "persisted (startup kill src stored)"
    by (simp add: startup_def Let_def)
  have 2: "persisted \<lparr>all_jobs = all_jobs L @ [new_job cmd],
                      jobs_file = save_job (jobs_file L) (new_job cmd)\<rparr>
           \<and> persisted (ingest_commands cmds L)" if "persisted L"
    using that ingest_persisted [of L cmds] by simp
  have 3: "persisted s1 \<and> load_jobs (jobs_file s1) = all_jobs s1
        \<and> (i < length (all_jobs s) \<longrightarrow> status (all_jobs s1 ! i) = ''running'')
        \<and> assign_jobs launch thr (i # rest) s = assign_jobs launch thr rest s1"
    if a: "assign_job launch thr i s = Some s1" for s1
  proof -
    have p: "persisted s1" using a by (rule assign_job_persisted)
    then have l: "load_jobs (jobs_file s1) = all_jobs s1" by (simp add: parse_lines_JobLine)
    have r: "i < length (all_jobs s) \<longrightarrow> status (all_jobs s1 ! i) = ''running''"
      using a by (auto simp: assign_job_eq status_dispatch_job split: option.splits)
    show ?thesis using p l r a by simp
  qed
  have 4: "load_jobs (jobs_file s') = all_jobs s' \<and> (jobs_file s' = stored \<or> persisted s')"
    if "run_cycle kill waitpid device_count nvml launch cfg n stored = Inr s'" for s'
    using run_cycle_persisted [OF that] by simp
  show ?thesis using 1 2 3 4 by blast
qed


theorem C3_witness:
  "all_jobs (startup ex_kill (Some ex_source) (Some [InvalidLine, JobLine (new_job ''train a'')])) =
     [new_job ''train a'', new_job ''train b'']
   \<and> jobs_file (startup ex_kill (Some ex_source) (Some [InvalidLine, JobLine (new_job ''train a'')])) =
     Some [JobLine (new_job ''train a''), JobLine (new_job ''train b'')]
   \<and> assign_job ex_launch 6000 0 (ex_state [new_job ''a'', new_job ''b''] [(0, 8000), (1, 10000)]) =
     Some \<lparr>all_jobs = [dispatch_job ex_launch 0 (new_job ''a'') 1, new_job ''b''],
           jobs_file = Some [JobLine (dispatch_job ex_launch 0 (new_job ''a'') 1), JobLine (new_job ''b'')],
           free_mem_dict = [(0, 8000), (1, 4000)],
           launched = 1\<rparr>
   \<and> status (dispatch_job ex_launch 0 (new_job ''a'') 1) = ''running''"
proof -
  have st: "startup ex_kill (Some ex_source) (Some [InvalidLine, JobLine (new_job ''train a'')]) =
     \<lparr>all_jobs = [new_job ''train a'', new_job ''train b''],
      jobs_file = Some [JobLine (new_job ''train a''), JobLine (new_job ''train b'')]\<rparr>"
    by (simp add: startup_def reconcile_startup_def mark_stale_def rewrite_jobs_file_def
        ex_source_def new_commands_def strip_def isspace_def new_job_def)
  have c: ?thesis
    unfolding st ex_state_def
    by (simp add: assign_job_eq ex_select_first subtract_mem_def status_dispatch_job)
  show ?thesis
    using C3_file_equals_memory_after_each_write
      [of ex_kill "Some ex_source" "Some [InvalidLine, JobLine (new_job ''train a'')]"
          "ex_ledger" "''x''" "[]" ex_launch 6000 0
          "ex_state [new_job ''a'', new_job ''b''] [(0, 8000), (1, 10000)]" "[]"
          ex_waitpid 2 ex_nvml ex_config 0]
    by - (rule c)
qed

text \<open>
  The records that the program itself writes all carry a process id when running: after startup
  this holds of the ledger, and a cycle that starts from such a ledger
  returns and ends in such a ledger.
\<close>

lemma startup_running_have_pid: "running_have_pid (all_jobs (startup kill src stored))"
proof -
  let ?js = "reconcile_startup kill (load_jobs stored)"
  let ?L0 = "\<lparr>all_jobs = ?js, jobs_file = rewrite_jobs_file ?js\<rparr>"
  have r: "running_have_pid ?js"
    by (auto simp: reconcile_startup_def mark_stale_def alive_kill_ok split: if_splits
        simp del: is_process_running.simps)
  have n: "running_have_pid (map new_job new)" for new
    by (simp add: new_job_def)
  have "running_have_pid (all_jobs (load_new_commands src ?L0))"
  proof (cases src)
    case None
    then show ?thesis using r by simp
  next
    case (Some f)
    obtain new where "all_jobs (ingest_commands (new_commands f) ?L0) = ?js @ map new_job new"
      using ingest_appends [of "new_commands f" ?L0] by auto
    then show ?thesis using Some r n [of new] by auto
  qed
  then show ?thesis by (simp add: startup_def Let_def)
qed

lemma assign_jobs_running_have_pid:
  "running_have_pid (all_jobs s) \<Longrightarrow> running_have_pid (all_jobs (assign_jobs launch thr ps s))"
proof (induction ps arbitrary: s)
  case Nil
  then show ?case by simp
next
  case (Cons p ps)
  show ?case
  proof (cases "select_gpu thr (free_mem_dict s)")
    case None
    then have "assign_job launch thr p s = None" by (simp add: assign_job_None)
    then show ?thesis using Cons.prems by simp
  next
    case (Some b)
    obtain g m where b: "b = (g, m)" by (cases b)
    let ?u = "dispatch_job launch (launched s) (all_jobs s ! p) g"
    let ?s1 = "\<lparr>all_jobs = (all_jobs s)[p := ?u],
                jobs_file = Some (map JobLine ((all_jobs s)[p := ?u])),
                free_mem_dict = subtract_mem (free_mem_dict s) g thr,
                launched = Suc (launched s)\<rparr>"
    have step: "assign_job launch thr p s = Some ?s1"
      using Some b by (simp add: assign_job_Some)
    have "pid ?u \<noteq> None" by (simp add: dispatch_job_def Let_def)
    moreover have "set ((all_jobs s)[p := ?u]) \<subseteq> insert ?u (set (all_jobs s))"
      by (rule set_update_subset_insert)
    ultimately have "running_have_pid (all_jobs ?s1)" using Cons.prems by auto
    then show ?thesis using step Cons.IH [of ?s1] by simp
  qed
qed

lemma run_cycle_running_have_pid:
  assumes "running_have_pid (load_jobs stored)"
  shows "\<exists>s'. run_cycle kill waitpid device_count nvml launch cfg n stored = Inr s'
              \<and> running_have_pid (all_jobs s')"
proof -
  let ?js = "map (\<lambda>j. fst (projr (update_job kill waitpid j))) (load_jobs stored)"
  let ?c = "\<exists>j \<in> set (load_jobs stored). status j = ''running'' \<and> \<not> alive kill (pid j)"
  have rec: "update_running kill waitpid (load_jobs stored) False = Inr (?js, ?c)"
    using update_running_ok [OF assms, of kill waitpid False] by simp
  have js: "running_have_pid ?js"
    using assms by (auto simp: update_job_ok split: wait_result.splits if_splits
        simp del: is_process_running.simps)
  let ?f = "if ?c then rewrite_jobs_file ?js else stored"
  let ?s0 = "\<lparr>all_jobs = ?js, jobs_file = ?f, free_mem_dict = [], launched = n\<rparr>"
  let ?d = "get_all_gpus_free_mem_mb device_count nvml (gpu_ids cfg)"
  let ?s1 = "\<lparr>all_jobs = ?js, jobs_file = ?f, free_mem_dict = ?d, launched = n\<rparr>"
  let ?s2 = "assign_jobs launch (min_free_mem_mb cfg) (pending_jobs ?js) ?s1"
  have "run_cycle kill waitpid device_count nvml launch cfg n stored = Inr ?s0
        \<or> run_cycle kill waitpid device_count nvml launch cfg n stored = Inr ?s2"
    unfolding run_cycle_def rec by (simp add: Let_def)
  moreover have "running_have_pid (all_jobs ?s0)" using js by simp
  moreover have "running_have_pid (all_jobs ?s2)"
    using js by (intro assign_jobs_running_have_pid) simp
  ultimately show ?thesis by blast
qed

text \<open>
  C7: the claim asks for failed whenever no exit code 0 was retrieved.  The source does
  that when \<open>os.waitpid\<close> raises \<open>ChildProcessError\<close>, but not when \<open>os.waitpid\<close> with
  \<open>WNOHANG\<close> returns (0, 0) for a child that has not exited: the liveness probe of the
  running record with process id 11 fails with \<open>OSError\<close>, no exit status is retrieved,
  the second component 0 is taken for the exit code and the record becomes completed.
\<close>

theorem C7_no_status_retrieved_yet_completed:
  "is_process_running eperm_kill (pid live_job) = (False, [(11, 0)])
   \<and> nohang_waitpid 11 WNOHANG = WaitReturned 0 0
   \<and> update_running eperm_kill nohang_waitpid [live_job] False =
       Inr ([live_job\<lparr>status := ''completed''\<rparr>], True)
   \<and> update_running eperm_kill no_child_waitpid [live_job] False =
       Inr ([live_job\<lparr>status := ''failed''\<rparr>], True)"
  by (simp add: eperm_kill_def nohang_waitpid_def no_child_waitpid_def live_job_def
      new_job_def update_job_def retrieve_retcode_def)

text \<open>
  The snapshot iterates in the order of the device ids it was asked for: for a list
  without repetition its keys are the ids that answered, in the order of the list.
\<close>

lemma query_gpus_keys:
  assumes "distinct gids" and "set gids \<inter> set (map fst d) = {}"
  shows "map fst (query_gpus nvml gids d) =
           map fst d @ filter (\<lambda>g. get_gpu_free_mem_mb nvml g \<noteq> None) gids"
  using assms
proof (induction gids arbitrary: d)
  case Nil
  then show ?case by simp
next
  case (Cons gid gids)
  have tl: "distinct gids" using Cons.prems(1) by simp
  show ?case
  proof (cases "get_gpu_free_mem_mb nvml gid")
    case None
    have "set gids \<inter> set (map fst d) = {}" using Cons.prems(2) by auto
    then show ?thesis using None Cons.IH [OF tl] by simp
  next
    case (Some m)
    let ?d = "AList.update gid m d"
    have fresh: "gid \<notin> set (map fst d)" using Cons.prems(2) by auto
    have keys: "map fst ?d = map fst d @ [gid]"
      using fresh update_keys [of gid m d] by simp
    have "set gids \<inter> set (map fst ?d) = {}"
      using Cons.prems keys by auto
    then show ?thesis using Some Cons.IH [OF tl, of ?d] keys by simp
  qed
qed

lemma snapshot_order:
  assumes "distinct ids"
  shows "map fst (get_all_gpus_free_mem_mb device_count nvml (Some ids)) =
           filter (\<lambda>g. get_gpu_free_mem_mb nvml g \<noteq> None) ids"
  using query_gpus_keys [OF assms, of "[]" nvml]
  by (simp add: get_all_gpus_free_mem_mb_def)

end
